theory Spec2Isabelle
  imports Main
begin

section \<open>Data model\<close>

text \<open>
  The three JSON documents hold arrays of records. Ids are JSON integers and are modelled
  as \<open>int\<close>; JavaScript strings are modelled as \<open>string\<close> and \<open>===\<close> on them as
  equality of the character lists.

  The field \<open>albums\<close> of a photo is the one field the code does not trust
  (\<open>Array.isArray(p.albums)\<close>): it is kept as an arbitrary JSON value, \<open>None\<close> when the
  field is absent.
\<close>

datatype json =
    JNull
  | JBool bool
  | JNum int
  | JStr string
  | JArr "json list"
  | JObj "(string \<times> json) list"

text \<open>The reduced view \<open>{id, username}\<close> and the stored user, which adds the password.\<close>

record user_view =
  user_id :: int
  username :: string

record user = user_view +
  password :: string

record album =
  album_id :: int
  name :: string

record photo =
  photo_id :: int
  owner :: int
  filename :: string
  title :: string
  description :: string
  date :: string
  albums :: "json option"
  tags :: "string list"

text \<open>
  The state is the parsed content of \<open>users.json\<close>, \<open>albums.json\<close> and
  \<open>photos.json\<close>. Every call of the source re-reads its file, so a read is a selector of
  the state, and \<open>writeJson\<close> followed by \<open>readJson\<close> gives back the array that was
  written. A file that is missing or does not parse to such an array is outside the
  model. \<open>writes\<close> counts the calls of \<open>writeJson\<close>: it tells a call that wrote
  nothing from a call that wrote back the same content.
\<close>

record store =
  user_file :: "user list"
  album_file :: "album list"
  photo_file :: "photo list"
  writes :: nat

text \<open>
  The error objects of the business layer. \<open>message\<close> gives the string the source puts
  in the \<open>error\<close> field; \<open>PhotoNotFound\<close> and \<open>AlbumNotFound\<close> are the two
  not-found errors.
\<close>

datatype error = PhotoNotFound | AccessDenied | AlbumNotFound

fun message :: "error \<Rightarrow> string" where
  "message PhotoNotFound = ''Photo not found''"
| "message AccessDenied = ''Access denied (not your photo)''"
| "message AlbumNotFound = ''Album not found''"

text \<open>
  The result object \<open>{ok, error?, skipped?}\<close> of the two mutating operations; an
  optional field that the source leaves out is \<open>None\<close>.
\<close>

record result =
  ok :: bool
  error :: "error option"
  skipped :: "bool option"

record album_photos =
  album :: album
  photos :: "photo list"

section \<open>The lowercase function\<close>

text \<open>
  \<open>String.prototype.toLowerCase\<close> is a built-in of the language and not code of the
  repository. Its Unicode case mapping is not modelled: the functions that call it,
  \<open>getAlbumByName\<close> and \<open>addTag\<close>, and those that call these, take it as their first
  argument \<open>toLowerCase\<close>, and the theorems hold for every function in its place. The
  one property that is asked of it, where a theorem says so, is that lowering a lowered
  string changes nothing.

  \<open>ascii_toLowerCase\<close> is an instance on which the examples are evaluated: \<open>A\<close> to \<open>Z\<close>
  (codes 65 to 90) are moved to \<open>a\<close> to \<open>z\<close> and every other character is kept. On
  strings of ASCII characters, as those of the examples, it is the built-in.
\<close>

definition ascii_toLowerChar :: "char \<Rightarrow> char" where
  "ascii_toLowerChar c =
     (let n = (of_char c :: nat) in if 65 \<le> n \<and> n \<le> 90 then char_of (n + 32) else c)"

definition ascii_toLowerCase :: "string \<Rightarrow> string" where
  "ascii_toLowerCase s = map ascii_toLowerChar s"

section \<open>Persistence\<close>

definition getUserByUsername :: "store \<Rightarrow> string \<Rightarrow> user option" where
  "getUserByUsername s uname = find (\<lambda>u. username u = uname) (user_file s)"

definition getAllAlbums :: "store \<Rightarrow> album list" where
  "getAllAlbums s = album_file s"

definition getAlbumById :: "store \<Rightarrow> int \<Rightarrow> album option" where
  "getAlbumById s albumId = find (\<lambda>a. album_id a = albumId) (getAllAlbums s)"

definition getAlbumByName :: "(string \<Rightarrow> string) \<Rightarrow> store \<Rightarrow> string \<Rightarrow> album option" where
  "getAlbumByName toLowerCase s nm =
     (let n = toLowerCase nm in find (\<lambda>a. toLowerCase (name a) = n) (getAllAlbums s))"

definition getAllPhotos :: "store \<Rightarrow> photo list" where
  "getAllPhotos s = photo_file s"

definition getPhotoById :: "store \<Rightarrow> int \<Rightarrow> photo option" where
  "getPhotoById s photoId = find (\<lambda>p. photo_id p = photoId) (getAllPhotos s)"

definition saveAllPhotos :: "store \<Rightarrow> photo list \<Rightarrow> store" where
  "saveAllPhotos s photoList = s\<lparr>photo_file := photoList, writes := Suc (writes s)\<rparr>"

text \<open>
  The \<open>for ... of\<close> loop of \<open>updatePhotoById\<close>: it changes the first photo with the id
  and breaks. The result is the array after the loop and the flag \<open>updated\<close>.
\<close>

fun updatePhotoById_loop :: "int \<Rightarrow> string \<Rightarrow> string \<Rightarrow> photo list \<Rightarrow> photo list \<times> bool" where
  "updatePhotoById_loop photoId t d [] = ([], False)"
| "updatePhotoById_loop photoId t d (p # ps) =
     (if photo_id p = photoId then (p\<lparr>title := t, description := d\<rparr> # ps, True)
      else (let (ps', updated) = updatePhotoById_loop photoId t d ps in (p # ps', updated)))"

definition updatePhotoById :: "store \<Rightarrow> int \<Rightarrow> string \<Rightarrow> string \<Rightarrow> bool \<times> store" where
  "updatePhotoById s photoId t d =
     (let (photos', updated) = updatePhotoById_loop photoId t d (getAllPhotos s)
      in (updated, if updated then saveAllPhotos s photos' else s))"

text \<open>The loop of \<open>addTagToPhoto\<close>: \<open>p.tags.push(tag)\<close> on the first photo with the id.\<close>

fun addTagToPhoto_loop :: "int \<Rightarrow> string \<Rightarrow> photo list \<Rightarrow> photo list \<times> bool" where
  "addTagToPhoto_loop photoId tag [] = ([], False)"
| "addTagToPhoto_loop photoId tag (p # ps) =
     (if photo_id p = photoId then (p\<lparr>tags := tags p @ [tag]\<rparr> # ps, True)
      else (let (ps', updated) = addTagToPhoto_loop photoId tag ps in (p # ps', updated)))"

definition addTagToPhoto :: "store \<Rightarrow> int \<Rightarrow> string \<Rightarrow> bool \<times> store" where
  "addTagToPhoto s photoId tag =
     (let (photos', updated) = addTagToPhoto_loop photoId tag (getAllPhotos s)
      in (updated, if updated then saveAllPhotos s photos' else s))"

text \<open>
  \<open>Array.isArray(p.albums) && p.albums.includes(albumId)\<close>. \<open>includes\<close> compares with
  SameValueZero: an element equals the number \<open>albumId\<close> exactly when it is that number.
  \<open>&&\<close> does not evaluate \<open>includes\<close> on a value that is not an array, so the
  second equation of \<open>array_includes\<close> is never reached.
\<close>

fun isArray :: "json option \<Rightarrow> bool" where
  "isArray (Some (JArr xs)) = True"
| "isArray _ = False"

fun array_includes :: "json option \<Rightarrow> int \<Rightarrow> bool" where
  "array_includes (Some (JArr xs)) albumId = (JNum albumId \<in> set xs)"
| "array_includes _ albumId = False"

definition listPhotosInAlbum :: "store \<Rightarrow> int \<Rightarrow> photo list" where
  "listPhotosInAlbum s albumId =
     filter (\<lambda>p. if isArray (albums p) then array_includes (albums p) albumId else False) (getAllPhotos s)"

section \<open>Business layer\<close>

text \<open>
  The functions take the store first and then the arguments of the source. The two that
  can write return the store they leave behind. In \<open>addTag\<close>, \<open>String(tag)\<close> is the
  identity on a string, and \<open>toLowerCase\<close> is the built-in, taken as an argument.
\<close>

definition login :: "store \<Rightarrow> string \<Rightarrow> string \<Rightarrow> user_view option" where
  "login s uname pw =
     (case getUserByUsername s uname of
        None \<Rightarrow> None
      | Some u \<Rightarrow>
          if password u = pw then Some \<lparr>user_id = user_id u, username = username u\<rparr> else None)"

definition getOwnedPhoto :: "store \<Rightarrow> int \<Rightarrow> int \<Rightarrow> error + photo" where
  "getOwnedPhoto s userId photoId =
     (case getPhotoById s photoId of
        None \<Rightarrow> Inl PhotoNotFound
      | Some p \<Rightarrow> if owner p \<noteq> userId then Inl AccessDenied else Inr p)"

definition updatePhotoDetails :: "store \<Rightarrow> int \<Rightarrow> int \<Rightarrow> string \<Rightarrow> string \<Rightarrow> result \<times> store" where
  "updatePhotoDetails s userId photoId t d =
     (case getPhotoById s photoId of
        None \<Rightarrow> (\<lparr>ok = False, error = Some PhotoNotFound, skipped = None\<rparr>, s)
      | Some p \<Rightarrow>
          if owner p \<noteq> userId then (\<lparr>ok = False, error = Some AccessDenied, skipped = None\<rparr>, s)
          else (let (b, s') = updatePhotoById s photoId t d
                in (\<lparr>ok = b, error = None, skipped = None\<rparr>, s')))"

definition addTag ::
  "(string \<Rightarrow> string) \<Rightarrow> store \<Rightarrow> int \<Rightarrow> int \<Rightarrow> string \<Rightarrow> result \<times> store" where
  "addTag toLowerCase s userId photoId tag =
     (case getPhotoById s photoId of
        None \<Rightarrow> (\<lparr>ok = False, error = Some PhotoNotFound, skipped = None\<rparr>, s)
      | Some p \<Rightarrow>
          if owner p \<noteq> userId then (\<lparr>ok = False, error = Some AccessDenied, skipped = None\<rparr>, s)
          else (let t = toLowerCase tag in
                if t \<in> set (tags p) then (\<lparr>ok = True, error = None, skipped = Some True\<rparr>, s)
                else (let (b, s') = addTagToPhoto s photoId t
                      in (\<lparr>ok = b, error = None, skipped = None\<rparr>, s'))))"

text \<open>
  \<open>addTag\<close> reads \<open>photos.json\<close> twice: once in \<open>getPhotoById\<close> and once more in
  \<open>addTagToPhoto\<close>. In \<open>addTag\<close> above nothing happens to the file between the two
  reads. \<open>addTag_between\<close> is the same function with the file changed by \<open>env\<close>, another
  writer, between the first read and the second.
\<close>

definition addTag_between ::
  "(string \<Rightarrow> string) \<Rightarrow> (store \<Rightarrow> store) \<Rightarrow> store \<Rightarrow> int \<Rightarrow> int \<Rightarrow> string \<Rightarrow> result \<times> store" where
  "addTag_between toLowerCase env s userId photoId tag =
     (case getPhotoById s photoId of
        None \<Rightarrow> (\<lparr>ok = False, error = Some PhotoNotFound, skipped = None\<rparr>, s)
      | Some p \<Rightarrow>
          if owner p \<noteq> userId then (\<lparr>ok = False, error = Some AccessDenied, skipped = None\<rparr>, s)
          else (let t = toLowerCase tag in
                if t \<in> set (tags p) then (\<lparr>ok = True, error = None, skipped = Some True\<rparr>, s)
                else (let (b, s') = addTagToPhoto (env s) photoId t
                      in (\<lparr>ok = b, error = None, skipped = None\<rparr>, s'))))"

definition getUserPhotosInAlbum ::
  "(string \<Rightarrow> string) \<Rightarrow> store \<Rightarrow> int \<Rightarrow> string \<Rightarrow> error + album_photos" where
  "getUserPhotosInAlbum toLowerCase s userId albumName =
     (case getAlbumByName toLowerCase s albumName of
        None \<Rightarrow> Inl AlbumNotFound
      | Some a \<Rightarrow>
          (let all = listPhotosInAlbum s (album_id a);
               mine = filter (\<lambda>p. owner p = userId) all
           in Inr \<lparr>album = a, photos = mine\<rparr>))"

fun mapAlbumIdsToNames :: "store \<Rightarrow> int list \<Rightarrow> string list" where
  "mapAlbumIdsToNames s [] = []"
| "mapAlbumIdsToNames s (aid # rest) =
     (case getAlbumById s aid of
        None \<Rightarrow> mapAlbumIdsToNames s rest
      | Some a \<Rightarrow> name a # mapAlbumIdsToNames s rest)"

text \<open>
  The calls the business layer exports, and the store each leaves behind. Only
  \<open>updatePhotoDetails\<close> and \<open>addTag\<close> reach \<open>writeJson\<close>; the other four only read.
\<close>

datatype call =
    Login string string
  | GetOwnedPhoto int int
  | UpdatePhotoDetails int int string string
  | AddTag int int string
  | GetUserPhotosInAlbum int string
  | MapAlbumIdsToNames "int list"

fun store_after :: "(string \<Rightarrow> string) \<Rightarrow> call \<Rightarrow> store \<Rightarrow> store" where
  "store_after toLowerCase (UpdatePhotoDetails u p t d) s = snd (updatePhotoDetails s u p t d)"
| "store_after toLowerCase (AddTag u p tag) s = snd (addTag toLowerCase s u p tag)"
| "store_after toLowerCase _ s = s"

section \<open>The tag invariant\<close>

text \<open>
  The two conditions on stored tags that the claims speak of, for a lowercase function
  \<open>toLowerCase\<close>. \<open>tags_invariant\<close>: in every photo the tags are lowercase (fixed by
  \<open>toLowerCase\<close>) and pairwise distinct. \<open>no_case_duplicates\<close>: no two tags of the list
  are equal under case-insensitive comparison, that is, after \<open>toLowerCase\<close>.
\<close>

definition tags_invariant :: "(string \<Rightarrow> string) \<Rightarrow> store \<Rightarrow> bool" where
  "tags_invariant toLowerCase s \<longleftrightarrow>
     (\<forall>p\<in>set (photo_file s). (\<forall>t\<in>set (tags p). toLowerCase t = t) \<and> distinct (tags p))"

definition no_case_duplicates :: "(string \<Rightarrow> string) \<Rightarrow> string list \<Rightarrow> bool" where
  "no_case_duplicates toLowerCase ts \<longleftrightarrow> distinct (map toLowerCase ts)"

section \<open>An example store\<close>

text \<open>
  Two users, two albums and four photos. Photo 7 is the photo of the examples: owner 1,
  title \<open>Old\<close>, tags \<open>[tree]\<close>. It is the second record of the array, and a second
  record with id 7 comes after it. Photo 8 has no \<open>albums\<close> field and the second photo 7
  has a string there.
\<close>

definition alice :: user where
  "alice = \<lparr>user_id = 1, username = ''alice'', password = ''pw1''\<rparr>"

definition bob :: user where
  "bob = \<lparr>user_id = 2, username = ''bob'', password = ''pw2''\<rparr>"

definition nature :: album where
  "nature = \<lparr>album_id = 1, name = ''Nature''\<rparr>"

definition city :: album where
  "city = \<lparr>album_id = 2, name = ''City''\<rparr>"

definition photo7 :: photo where
  "photo7 = \<lparr>photo_id = 7, owner = 1, filename = ''tree.jpg'', title = ''Old'',
     description = ''an old tree'', date = ''2024-05-01T10:00:00Z'',
     albums = Some (JArr [JNum 1]), tags = [''tree'']\<rparr>"

definition photo8 :: photo where
  "photo8 = \<lparr>photo_id = 8, owner = 2, filename = ''street.jpg'', title = ''Street'',
     description = ''a street'', date = ''2024-05-02T10:00:00Z'',
     albums = None, tags = []\<rparr>"

definition photo7_again :: photo where
  "photo7_again = \<lparr>photo_id = 7, owner = 2, filename = ''copy.jpg'', title = ''Copy'',
     description = ''a copy'', date = ''2024-05-03T10:00:00Z'',
     albums = Some (JStr ''1''), tags = [''copy'']\<rparr>"

definition photo9 :: photo where
  "photo9 = \<lparr>photo_id = 9, owner = 1, filename = ''lake.jpg'', title = ''Lake'',
     description = ''a lake'', date = ''2024-05-04T10:00:00Z'',
     albums = Some (JArr [JNum 2, JNum 1]), tags = [''water'']\<rparr>"

definition example_store :: store where
  "example_store = \<lparr>user_file = [alice, bob], album_file = [nature, city],
     photo_file = [photo8, photo7, photo7_again, photo9], writes = 0\<rparr>"

lemmas example_defs = example_store_def photo7_def photo8_def photo7_again_def photo9_def
  alice_def bob_def nature_def city_def

section \<open>First match\<close>

text \<open>
  \<open>Array.prototype.find\<close> and the two loops stop at the first record that matches. The
  first match is written as a split of the array: \<open>pre @ x # post\<close>, with no match
  in \<open>pre\<close>.
\<close>

lemma find_first:
  "\<forall>y\<in>set pre. \<not> P y \<Longrightarrow> P x \<Longrightarrow> find P (pre @ x # post) = Some x"
  by (induction pre) auto

lemma find_Some_split:
  "find P xs = Some x \<Longrightarrow> \<exists>pre post. xs = pre @ x # post \<and> (\<forall>y\<in>set pre. \<not> P y) \<and> P x"
proof (induction xs)
  case Nil
  then show ?case by simp
next
  case (Cons a xs)
  show ?case
  proof (cases "P a")
    case True
    with Cons.prems have "a = x" by simp
    with True have "a # xs = [] @ x # xs \<and> (\<forall>y\<in>set []. \<not> P y) \<and> P x" by simp
    then show ?thesis by blast
  next
    case False
    with Cons.prems have "find P xs = Some x" by simp
    from Cons.IH [OF this] obtain pre post
      where "xs = pre @ x # post" "\<forall>y\<in>set pre. \<not> P y" "P x" by blast
    with False have "a # xs = (a # pre) @ x # post \<and> (\<forall>y\<in>set (a # pre). \<not> P y) \<and> P x"
      by simp
    then show ?thesis by blast
  qed
qed

lemma find_None_all: "find P xs = None \<longleftrightarrow> (\<forall>y\<in>set xs. \<not> P y)"
  by (induction xs) auto

lemma updatePhotoById_loop_first:
  "\<forall>y\<in>set pre. photo_id y \<noteq> pid \<Longrightarrow> photo_id q = pid \<Longrightarrow>
   updatePhotoById_loop pid t d (pre @ q # post) = (pre @ q\<lparr>title := t, description := d\<rparr> # post, True)"
  by (induction pre) auto

lemma updatePhotoById_loop_none:
  "\<forall>y\<in>set ps. photo_id y \<noteq> pid \<Longrightarrow> updatePhotoById_loop pid t d ps = (ps, False)"
  by (induction ps) auto

lemma addTagToPhoto_loop_first:
  "\<forall>y\<in>set pre. photo_id y \<noteq> pid \<Longrightarrow> photo_id q = pid \<Longrightarrow>
   addTagToPhoto_loop pid tag (pre @ q # post) = (pre @ q\<lparr>tags := tags q @ [tag]\<rparr> # post, True)"
  by (induction pre) auto

lemma addTagToPhoto_loop_none:
  "\<forall>y\<in>set ps. photo_id y \<noteq> pid \<Longrightarrow> addTagToPhoto_loop pid tag ps = (ps, False)"
  by (induction ps) auto

lemma getPhotoById_first:
  "photo_file s = pre @ q # post \<Longrightarrow> \<forall>y\<in>set pre. photo_id y \<noteq> pid \<Longrightarrow> photo_id q = pid \<Longrightarrow>
   getPhotoById s pid = Some q"
  by (simp add: getPhotoById_def getAllPhotos_def find_first)

lemma getPhotoById_split:
  "getPhotoById s pid = Some q \<Longrightarrow>
   \<exists>pre post. photo_file s = pre @ q # post \<and> (\<forall>y\<in>set pre. photo_id y \<noteq> pid) \<and> photo_id q = pid"
  unfolding getPhotoById_def getAllPhotos_def by (rule find_Some_split)

lemma getPhotoById_None:
  "getPhotoById s pid = None \<longleftrightarrow> (\<forall>y\<in>set (photo_file s). photo_id y \<noteq> pid)"
  by (simp add: getPhotoById_def getAllPhotos_def find_None_all)

lemma updatePhotoById_first:
  "photo_file s = pre @ q # post \<Longrightarrow> \<forall>y\<in>set pre. photo_id y \<noteq> pid \<Longrightarrow> photo_id q = pid \<Longrightarrow>
   updatePhotoById s pid t d =
     (True, s\<lparr>photo_file := pre @ q\<lparr>title := t, description := d\<rparr> # post, writes := Suc (writes s)\<rparr>)"
  by (simp add: updatePhotoById_def getAllPhotos_def saveAllPhotos_def updatePhotoById_loop_first)

text \<open>Without a match nothing is written: \<open>updated\<close> stays false.\<close>

lemma updatePhotoById_none:
  "\<forall>y\<in>set (photo_file s). photo_id y \<noteq> pid \<Longrightarrow> updatePhotoById s pid t d = (False, s)"
  by (simp add: updatePhotoById_def getAllPhotos_def updatePhotoById_loop_none)

lemma addTagToPhoto_none:
  "\<forall>y\<in>set (photo_file s). photo_id y \<noteq> pid \<Longrightarrow> addTagToPhoto s pid tag = (False, s)"
  by (simp add: addTagToPhoto_def getAllPhotos_def addTagToPhoto_loop_none)

lemma addTagToPhoto_first:
  "photo_file s = pre @ q # post \<Longrightarrow> \<forall>y\<in>set pre. photo_id y \<noteq> pid \<Longrightarrow> photo_id q = pid \<Longrightarrow>
   addTagToPhoto s pid tag =
     (True, s\<lparr>photo_file := pre @ q\<lparr>tags := tags q @ [tag]\<rparr> # post, writes := Suc (writes s)\<rparr>)"
  by (simp add: addTagToPhoto_def getAllPhotos_def saveAllPhotos_def addTagToPhoto_loop_first)

section \<open>Lowercase\<close>

text \<open>
  In the statements below \<open>lc\<close> stands for \<open>String.prototype.toLowerCase\<close>: it is a
  variable, so each statement holds for every function from strings to strings, the
  Unicode case mapping of the language among them. The proofs use that it is a function
  of its argument and, for the tag invariant alone, that it is idempotent, which is then
  a hypothesis of the statement.

  The lemmas of this section are about the ASCII instance of the examples.
\<close>

lemma ascii_toLowerChar_idem: "ascii_toLowerChar (ascii_toLowerChar c) = ascii_toLowerChar c"
proof -
  have "of_char (char_of (n + 32) :: char) = n + 32" if "n \<le> 90" for n :: nat
    using that by simp
  then show ?thesis
    by (auto simp: ascii_toLowerChar_def Let_def)
qed

lemma ascii_toLowerCase_idem: "ascii_toLowerCase (ascii_toLowerCase t) = ascii_toLowerCase t"
  by (simp add: ascii_toLowerCase_def ascii_toLowerChar_idem)

lemma ascii_toLowerCase_Tree: "ascii_toLowerCase ''Tree'' = ''tree''"
  by code_simp

lemma ascii_toLowerCase_tree: "ascii_toLowerCase ''tree'' = ''tree''"
  by code_simp

lemma ascii_toLowerCase_Sunset: "ascii_toLowerCase ''SUNSET'' = ascii_toLowerCase ''Sunset''"
  by code_simp

section \<open>The cases of the two mutating operations\<close>

lemma updatePhotoDetails_owned:
  assumes "photo_file s = pre @ q # post" "\<forall>y\<in>set pre. photo_id y \<noteq> pid" "photo_id q = pid"
    and "owner q = u"
  shows "updatePhotoDetails s u pid t d =
           (\<lparr>ok = True, error = None, skipped = None\<rparr>,
            s\<lparr>photo_file := pre @ q\<lparr>title := t, description := d\<rparr> # post,
              writes := Suc (writes s)\<rparr>)"
proof -
  have "getPhotoById s pid = Some q" using assms(1-3) by (rule getPhotoById_first)
  moreover note updatePhotoById_first [OF assms(1-3), of t d]
  ultimately show ?thesis using assms(4) by (simp add: updatePhotoDetails_def)
qed

lemma updatePhotoDetails_ok_owned:
  assumes "ok (fst (updatePhotoDetails s u pid t d))"
  shows "\<exists>q. getPhotoById s pid = Some q \<and> owner q = u"
  using assms by (auto simp: updatePhotoDetails_def split: option.splits if_splits)


lemma addTag_owned:
  assumes "photo_file s = pre @ q # post" "\<forall>y\<in>set pre. photo_id y \<noteq> pid" "photo_id q = pid"
    and "owner q = u"
  shows "addTag lc s u pid tag =
     (if lc tag \<in> set (tags q)
      then (\<lparr>ok = True, error = None, skipped = Some True\<rparr>, s)
      else (\<lparr>ok = True, error = None, skipped = None\<rparr>,
            s\<lparr>photo_file := pre @ q\<lparr>tags := tags q @ [lc tag]\<rparr> # post,
              writes := Suc (writes s)\<rparr>))"
proof -
  have "getPhotoById s pid = Some q" using assms(1-3) by (rule getPhotoById_first)
  moreover note addTagToPhoto_first [OF assms(1-3), of "lc tag"]
  ultimately show ?thesis using assms(4)
    by (simp add: addTag_def Let_def)
qed

lemma addTag_not_found:
  "\<forall>y\<in>set (photo_file s). photo_id y \<noteq> pid \<Longrightarrow>
   addTag lc s u pid tag = (\<lparr>ok = False, error = Some PhotoNotFound, skipped = None\<rparr>, s)"
  by (simp add: addTag_def getPhotoById_None [symmetric])

lemma addTag_denied:
  assumes "photo_file s = pre @ q # post" "\<forall>y\<in>set pre. photo_id y \<noteq> pid" "photo_id q = pid"
    and "owner q \<noteq> u"
  shows "addTag lc s u pid tag = (\<lparr>ok = False, error = Some AccessDenied, skipped = None\<rparr>, s)"
proof -
  have "getPhotoById s pid = Some q" using assms(1-3) by (rule getPhotoById_first)
  then show ?thesis using assms(4) by (simp add: addTag_def)
qed

lemma updatePhotoDetails_not_found:
  "\<forall>y\<in>set (photo_file s). photo_id y \<noteq> pid \<Longrightarrow>
   updatePhotoDetails s u pid t d = (\<lparr>ok = False, error = Some PhotoNotFound, skipped = None\<rparr>, s)"
  by (simp add: updatePhotoDetails_def getPhotoById_None [symmetric])

lemma updatePhotoDetails_denied:
  assumes "photo_file s = pre @ q # post" "\<forall>y\<in>set pre. photo_id y \<noteq> pid" "photo_id q = pid"
    and "owner q \<noteq> u"
  shows "updatePhotoDetails s u pid t d = (\<lparr>ok = False, error = Some AccessDenied, skipped = None\<rparr>, s)"
proof -
  have "getPhotoById s pid = Some q" using assms(1-3) by (rule getPhotoById_first)
  then show ?thesis using assms(4) by (simp add: updatePhotoDetails_def)
qed

text \<open>The cases of a lookup by id, as a rule for case analysis.\<close>

lemma photo_cases [case_names absent first]:
  fixes s :: store
  assumes "\<forall>y\<in>set (photo_file s). photo_id y \<noteq> pid \<Longrightarrow> R"
    and "\<And>pre q post. photo_file s = pre @ q # post \<Longrightarrow> \<forall>y\<in>set pre. photo_id y \<noteq> pid \<Longrightarrow>
          photo_id q = pid \<Longrightarrow> R"
  shows R
proof (cases "getPhotoById s pid")
  case None
  then show ?thesis using assms(1) by (simp add: getPhotoById_None)
next
  case (Some q)
  from getPhotoById_split [OF this] show ?thesis using assms(2) by blast
qed

lemma example_first7:
  "photo_file example_store = [photo8] @ photo7 # [photo7_again, photo9] \<and>
   (\<forall>y\<in>set [photo8]. photo_id y \<noteq> 7) \<and> photo_id photo7 = 7"
  by (simp add: example_store_def photo7_def photo8_def)

section \<open>Reading an owned photo\<close>

text \<open>
  Claim C1. \<open>getOwnedPhoto\<close> is a total trichotomy over the photo collection. For every
  user id \<open>u\<close> and photo id \<open>p\<close>: if no photo has id \<open>p\<close> the result is the not-found
  error; if the first photo with id \<open>p\<close> has another owner the result is the
  access-denied error; if the first photo with id \<open>p\<close> is owned by \<open>u\<close> the result is
  that stored record. One of the cases always applies.
\<close>

theorem getOwnedPhoto_trichotomy:
  "((\<forall>q\<in>set (photo_file s). photo_id q \<noteq> p) \<longrightarrow> getOwnedPhoto s u p = Inl PhotoNotFound) \<and>
   (\<forall>pre q post.
      photo_file s = pre @ q # post \<and> (\<forall>y\<in>set pre. photo_id y \<noteq> p) \<and> photo_id q = p \<longrightarrow>
      (owner q \<noteq> u \<longrightarrow> getOwnedPhoto s u p = Inl AccessDenied) \<and>
      (owner q = u \<longrightarrow> getOwnedPhoto s u p = Inr q)) \<and>
   ((\<forall>q\<in>set (photo_file s). photo_id q \<noteq> p) \<or>
    (\<exists>pre q post.
      photo_file s = pre @ q # post \<and> (\<forall>y\<in>set pre. photo_id y \<noteq> p) \<and> photo_id q = p))"
proof (intro conjI allI impI)
  assume "\<forall>q\<in>set (photo_file s). photo_id q \<noteq> p"
  then have "getPhotoById s p = None" by (simp add: getPhotoById_None)
  then show "getOwnedPhoto s u p = Inl PhotoNotFound" by (simp add: getOwnedPhoto_def)
next
  fix pre q post
  assume a: "photo_file s = pre @ q # post \<and> (\<forall>y\<in>set pre. photo_id y \<noteq> p) \<and> photo_id q = p"
  then have g: "getPhotoById s p = Some q" by (simp add: getPhotoById_first)
  { assume "owner q \<noteq> u"
    with g show "getOwnedPhoto s u p = Inl AccessDenied" by (simp add: getOwnedPhoto_def) }
  { assume "owner q = u"
    with g show "getOwnedPhoto s u p = Inr q" by (simp add: getOwnedPhoto_def) }
next
  show "(\<forall>q\<in>set (photo_file s). photo_id q \<noteq> p) \<or>
    (\<exists>pre q post.
      photo_file s = pre @ q # post \<and> (\<forall>y\<in>set pre. photo_id y \<noteq> p) \<and> photo_id q = p)"
  proof (cases "getPhotoById s p")
    case None
    then show ?thesis by (simp add: getPhotoById_None)
  next
    case (Some q)
    from getPhotoById_split [OF this] show ?thesis by blast
  qed
qed

theorem getOwnedPhoto_trichotomy_witness:
  "getOwnedPhoto example_store 1 5 = Inl PhotoNotFound \<and>
   getOwnedPhoto example_store 2 7 = Inl AccessDenied \<and>
   getOwnedPhoto example_store 1 7 = Inr photo7"
proof -
  have none: "\<forall>q\<in>set (photo_file example_store). photo_id q \<noteq> 5"
    by (simp add: example_defs)
  have first: "photo_file example_store = [photo8] @ photo7 # [photo7_again, photo9] \<and>
      (\<forall>y\<in>set [photo8]. photo_id y \<noteq> 7) \<and> photo_id photo7 = 7"
    by (simp add: example_defs)
  have o: "owner photo7 = 1" "owner photo7 \<noteq> 2" by (simp_all add: photo7_def)
  from none getOwnedPhoto_trichotomy [of example_store 5 1]
  have 1: "getOwnedPhoto example_store 1 5 = Inl PhotoNotFound" by blast
  from first o getOwnedPhoto_trichotomy [of example_store 7 2]
  have 2: "getOwnedPhoto example_store 2 7 = Inl AccessDenied" by blast
  from first o getOwnedPhoto_trichotomy [of example_store 7 1]
  have 3: "getOwnedPhoto example_store 1 7 = Inr photo7" by blast
  from 1 2 3 show ?thesis by blast
qed

section \<open>Updating title and description\<close>

text \<open>
  Claim C2. A call of \<open>updatePhotoDetails\<close> succeeds only on a photo id whose first
  record is owned by the caller. On such a photo the call succeeds, and the stored
  collection is the prior one except that this first record has the new title and
  description: its other fields and all other records are unchanged, and a following
  \<open>getOwnedPhoto\<close> returns the record with the new title and description and the old
  id, owner, filename, date, albums and tags.
\<close>

theorem updatePhotoDetails_roundtrip:
  "(ok (fst (updatePhotoDetails s u pid t d)) \<longrightarrow>
      (\<exists>pre q post. photo_file s = pre @ q # post \<and> (\<forall>y\<in>set pre. photo_id y \<noteq> pid) \<and>
         photo_id q = pid \<and> owner q = u)) \<and>
   (\<forall>pre q post.
      photo_file s = pre @ q # post \<and> (\<forall>y\<in>set pre. photo_id y \<noteq> pid) \<and>
      photo_id q = pid \<and> owner q = u \<longrightarrow>
      updatePhotoDetails s u pid t d =
        (\<lparr>ok = True, error = None, skipped = None\<rparr>,
         s\<lparr>photo_file := pre @ q\<lparr>title := t, description := d\<rparr> # post,
           writes := Suc (writes s)\<rparr>) \<and>
      getOwnedPhoto (snd (updatePhotoDetails s u pid t d)) u pid =
        Inr \<lparr>photo_id = photo_id q, owner = owner q, filename = filename q, title = t,
             description = d, date = date q, albums = albums q, tags = tags q\<rparr>)"
proof (intro conjI allI impI)
  assume "ok (fst (updatePhotoDetails s u pid t d))"
  then obtain q where q: "getPhotoById s pid = Some q" "owner q = u"
    using updatePhotoDetails_ok_owned by blast
  from getPhotoById_split [OF q(1)] q(2)
  show "\<exists>pre q post. photo_file s = pre @ q # post \<and> (\<forall>y\<in>set pre. photo_id y \<noteq> pid) \<and>
         photo_id q = pid \<and> owner q = u"
    by blast
next
  fix pre q post
  assume a: "photo_file s = pre @ q # post \<and> (\<forall>y\<in>set pre. photo_id y \<noteq> pid) \<and>
      photo_id q = pid \<and> owner q = u"
  let ?q' = "q\<lparr>title := t, description := d\<rparr>"
  let ?s' = "s\<lparr>photo_file := pre @ ?q' # post, writes := Suc (writes s)\<rparr>"
  from a show upd: "updatePhotoDetails s u pid t d = (\<lparr>ok = True, error = None, skipped = None\<rparr>, ?s')"
    by (simp add: updatePhotoDetails_owned)
  have "photo_file ?s' = pre @ ?q' # post" by simp
  moreover from a have "\<forall>y\<in>set pre. photo_id y \<noteq> pid" by simp
  moreover from a have "photo_id ?q' = pid" by simp
  ultimately have "getPhotoById ?s' pid = Some ?q'" by (rule getPhotoById_first)
  moreover from a have "owner ?q' = u" by simp
  ultimately have own: "getOwnedPhoto ?s' u pid = Inr ?q'" by (simp add: getOwnedPhoto_def)
  have eq: "?q' = \<lparr>photo_id = photo_id q, owner = owner q, filename = filename q, title = t,
             description = d, date = date q, albums = albums q, tags = tags q\<rparr>"
    by simp
  show "getOwnedPhoto (snd (updatePhotoDetails s u pid t d)) u pid =
        Inr \<lparr>photo_id = photo_id q, owner = owner q, filename = filename q, title = t,
             description = d, date = date q, albums = albums q, tags = tags q\<rparr>"
    using own upd eq by (simp only: snd_conv)
qed

theorem updatePhotoDetails_roundtrip_witness:
  "updatePhotoDetails example_store 1 7 ''New'' ''desc'' =
     (\<lparr>ok = True, error = None, skipped = None\<rparr>,
      \<lparr>user_file = [alice, bob], album_file = [nature, city],
       photo_file = [photo8, photo7\<lparr>title := ''New'', description := ''desc''\<rparr>, photo7_again, photo9],
       writes = 1\<rparr>) \<and>
   getOwnedPhoto (snd (updatePhotoDetails example_store 1 7 ''New'' ''desc'')) 1 7 =
     Inr \<lparr>photo_id = 7, owner = 1, filename = ''tree.jpg'', title = ''New'',
          description = ''desc'', date = ''2024-05-01T10:00:00Z'',
          albums = Some (JArr [JNum 1]), tags = [''tree'']\<rparr>"
proof -
  have first: "photo_file example_store = [photo8] @ photo7 # [photo7_again, photo9] \<and>
      (\<forall>y\<in>set [photo8]. photo_id y \<noteq> 7) \<and> photo_id photo7 = 7 \<and> owner photo7 = 1"
    by (simp add: example_store_def photo7_def photo8_def)
  from updatePhotoDetails_roundtrip [of example_store 1 7 "''New''" "''desc''"] first
  have "updatePhotoDetails example_store 1 7 ''New'' ''desc'' =
        (\<lparr>ok = True, error = None, skipped = None\<rparr>,
         example_store\<lparr>photo_file := [photo8] @ photo7\<lparr>title := ''New'', description := ''desc''\<rparr> #
             [photo7_again, photo9],
           writes := Suc (writes example_store)\<rparr>) \<and>
      getOwnedPhoto (snd (updatePhotoDetails example_store 1 7 ''New'' ''desc'')) 1 7 =
        Inr \<lparr>photo_id = photo_id photo7, owner = owner photo7, filename = filename photo7,
             title = ''New'', description = ''desc'', date = date photo7,
             albums = albums photo7, tags = tags photo7\<rparr>"
    by blast
  then have h1: "updatePhotoDetails example_store 1 7 ''New'' ''desc'' =
        (\<lparr>ok = True, error = None, skipped = None\<rparr>,
         example_store\<lparr>photo_file := [photo8] @ photo7\<lparr>title := ''New'', description := ''desc''\<rparr> #
             [photo7_again, photo9],
           writes := Suc (writes example_store)\<rparr>)"
    and h2: "getOwnedPhoto (snd (updatePhotoDetails example_store 1 7 ''New'' ''desc'')) 1 7 =
        Inr \<lparr>photo_id = photo_id photo7, owner = owner photo7, filename = filename photo7,
             title = ''New'', description = ''desc'', date = date photo7,
             albums = albums photo7, tags = tags photo7\<rparr>"
    by blast+
  show ?thesis
  proof
    show "updatePhotoDetails example_store 1 7 ''New'' ''desc'' =
     (\<lparr>ok = True, error = None, skipped = None\<rparr>,
      \<lparr>user_file = [alice, bob], album_file = [nature, city],
       photo_file = [photo8, photo7\<lparr>title := ''New'', description := ''desc''\<rparr>, photo7_again, photo9],
       writes = 1\<rparr>)"
      unfolding h1 by (simp add: example_store_def)
    show "getOwnedPhoto (snd (updatePhotoDetails example_store 1 7 ''New'' ''desc'')) 1 7 =
     Inr \<lparr>photo_id = 7, owner = 1, filename = ''tree.jpg'', title = ''New'',
          description = ''desc'', date = ''2024-05-01T10:00:00Z'',
          albums = Some (JArr [JNum 1]), tags = [''tree'']\<rparr>"
      unfolding h2 by (simp add: photo7_def)
  qed
qed


section \<open>Adding a tag\<close>

text \<open>
  Claim C3. \<open>addTag\<close> is idempotent in the normalized tag. On a photo owned by the
  caller (the first record with the id is the caller's), the first call succeeds, and a
  second call with a tag of the same normalized form, \<open>lc tag2 = lc tag1\<close>, returns
  \<open>{ok: true, skipped: true}\<close> and leaves the store, write counter included, as the first
  call left it. This holds for every lowercase function \<open>lc\<close>.
\<close>

theorem addTag_idempotent:
  "photo_file s = pre @ q # post \<and> (\<forall>y\<in>set pre. photo_id y \<noteq> pid) \<and> photo_id q = pid \<and>
   owner q = u \<and> lc tag2 = lc tag1 \<longrightarrow>
     ok (fst (addTag lc s u pid tag1)) \<and>
     addTag lc (snd (addTag lc s u pid tag1)) u pid tag2 =
       (\<lparr>ok = True, error = None, skipped = Some True\<rparr>, snd (addTag lc s u pid tag1))"
proof
  assume a: "photo_file s = pre @ q # post \<and> (\<forall>y\<in>set pre. photo_id y \<noteq> pid) \<and> photo_id q = pid \<and>
   owner q = u \<and> lc tag2 = lc tag1"
  then have 1: "photo_file s = pre @ q # post" and 2: "\<forall>y\<in>set pre. photo_id y \<noteq> pid"
    and 3: "photo_id q = pid" and 4: "owner q = u" and 5: "lc tag2 = lc tag1"
    by simp_all
  note first = addTag_owned [OF 1 2 3 4, of lc tag1]
  show "ok (fst (addTag lc s u pid tag1)) \<and>
     addTag lc (snd (addTag lc s u pid tag1)) u pid tag2 =
       (\<lparr>ok = True, error = None, skipped = Some True\<rparr>, snd (addTag lc s u pid tag1))"
  proof (cases "lc tag1 \<in> set (tags q)")
    case True
    with first have s1: "addTag lc s u pid tag1 = (\<lparr>ok = True, error = None, skipped = Some True\<rparr>, s)"
      by simp
    from True 5 addTag_owned [OF 1 2 3 4, of lc tag2]
    have "addTag lc s u pid tag2 = (\<lparr>ok = True, error = None, skipped = Some True\<rparr>, s)" by simp
    with s1 show ?thesis by simp
  next
    case False
    let ?q1 = "q\<lparr>tags := tags q @ [lc tag1]\<rparr>"
    let ?s1 = "s\<lparr>photo_file := pre @ ?q1 # post, writes := Suc (writes s)\<rparr>"
    from False first have s1: "addTag lc s u pid tag1 = (\<lparr>ok = True, error = None, skipped = None\<rparr>, ?s1)"
      by simp
    have "photo_file ?s1 = pre @ ?q1 # post" by simp
    moreover note 2
    moreover have "photo_id ?q1 = pid" using 3 by simp
    moreover have "owner ?q1 = u" using 4 by simp
    ultimately have "addTag lc ?s1 u pid tag2 =
     (if lc tag2 \<in> set (tags ?q1)
      then (\<lparr>ok = True, error = None, skipped = Some True\<rparr>, ?s1)
      else (\<lparr>ok = True, error = None, skipped = None\<rparr>,
            ?s1\<lparr>photo_file := pre @ ?q1\<lparr>tags := tags ?q1 @ [lc tag2]\<rparr> # post,
              writes := Suc (writes ?s1)\<rparr>))"
      by (rule addTag_owned)
    moreover have "lc tag2 \<in> set (tags ?q1)" using 5 by simp
    ultimately have "addTag lc ?s1 u pid tag2 = (\<lparr>ok = True, error = None, skipped = Some True\<rparr>, ?s1)"
      by (simp only: if_True)
    with s1 show ?thesis by (simp only: fst_conv snd_conv) simp
  qed
qed


theorem addTag_idempotent_witness:
  "ok (fst (addTag ascii_toLowerCase example_store 1 7 ''Sunset'')) \<and>
   addTag ascii_toLowerCase (snd (addTag ascii_toLowerCase example_store 1 7 ''Sunset'')) 1 7 ''SUNSET'' =
     (\<lparr>ok = True, error = None, skipped = Some True\<rparr>, snd (addTag ascii_toLowerCase example_store 1 7 ''Sunset''))"
proof -
  have "photo_file example_store = [photo8] @ photo7 # [photo7_again, photo9] \<and>
     (\<forall>y\<in>set [photo8]. photo_id y \<noteq> 7) \<and> photo_id photo7 = 7 \<and> owner photo7 = 1 \<and>
     ascii_toLowerCase ''SUNSET'' = ascii_toLowerCase ''Sunset''"
    using example_first7 ascii_toLowerCase_Sunset by (simp add: photo7_def)
  with addTag_idempotent [of example_store "[photo8]" photo7 "[photo7_again, photo9]" 7 1
      ascii_toLowerCase "''SUNSET''" "''Sunset''"]
  show ?thesis by blast
qed

lemma addTag_between_same: "addTag_between lc (\<lambda>s. s) s u pid tag = addTag lc s u pid tag"
  by (simp add: addTag_between_def addTag_def)

lemma addTagToPhoto_fst_cong:
  "photo_file s' = photo_file s \<Longrightarrow> fst (addTagToPhoto s' pid t) = fst (addTagToPhoto s pid t)"
  by (simp add: addTagToPhoto_def getAllPhotos_def split: prod.splits)

lemma addTag_between_result:
  assumes "photo_file (env s) = photo_file s"
  shows "fst (addTag_between lc env s u pid tag) = fst (addTag lc s u pid tag)"
proof -
  have "fst (addTagToPhoto (env s) pid t) = fst (addTagToPhoto s pid t)" for t
    using assms by (rule addTagToPhoto_fst_cong)
  then show ?thesis
    by (simp add: addTag_between_def addTag_def Let_def case_prod_beta split: option.splits)
qed

text \<open>
  When the photo collection does change between the two reads, the write can miss the
  photo: here the other writer empties the collection, and the result is \<open>{ok: false}\<close>.
\<close>

lemma addTag_between_lost:
  "fst (addTag_between ascii_toLowerCase (\<lambda>s. s\<lparr>photo_file := []\<rparr>) example_store 1 7 ''oak'') =
     \<lparr>ok = False, error = None, skipped = None\<rparr>"
  by code_simp

text \<open>
  Claim C8. When the photo collection that the ownership fetch of \<open>addTag\<close> reads is the
  collection that the write reads, the \<open>{ok: false}\<close> branch is unreachable. The write
  finds the photo that the fetch found: \<open>addTagToPhoto\<close> returns true whenever
  \<open>getPhotoById\<close> finds a photo in the same store, and \<open>addTag\<close> returns \<open>ok: true\<close>
  whenever that photo is the caller's. The result \<open>{ok: false}\<close> with no error is never
  returned: a result that is not ok carries the not-found or the access-denied error.
  The same holds with another writer between the two reads, as long as it leaves the
  photo collection as it was.
\<close>

theorem addTag_write_finds_photo:
  "(\<forall>q. getPhotoById s pid = Some q \<longrightarrow> fst (addTagToPhoto s pid t)) \<and>
   (\<forall>q. getPhotoById s pid = Some q \<and> owner q = u \<longrightarrow> ok (fst (addTag lc s u pid tag))) \<and>
   fst (addTag lc s u pid tag) \<noteq> \<lparr>ok = False, error = None, skipped = None\<rparr> \<and>
   (\<not> ok (fst (addTag lc s u pid tag)) \<longrightarrow>
      error (fst (addTag lc s u pid tag)) \<in> {Some PhotoNotFound, Some AccessDenied}) \<and>
   (photo_file (env s) = photo_file s \<longrightarrow>
      fst (addTag_between lc env s u pid tag) = fst (addTag lc s u pid tag) \<and>
      fst (addTag_between lc env s u pid tag) \<noteq> \<lparr>ok = False, error = None, skipped = None\<rparr>)"
proof -
  have sequential: "(\<forall>q. getPhotoById s pid = Some q \<longrightarrow> fst (addTagToPhoto s pid t)) \<and>
   (\<forall>q. getPhotoById s pid = Some q \<and> owner q = u \<longrightarrow> ok (fst (addTag lc s u pid tag))) \<and>
   fst (addTag lc s u pid tag) \<noteq> \<lparr>ok = False, error = None, skipped = None\<rparr> \<and>
   (\<not> ok (fst (addTag lc s u pid tag)) \<longrightarrow>
      error (fst (addTag lc s u pid tag)) \<in> {Some PhotoNotFound, Some AccessDenied})"
  proof (intro conjI allI impI)
    fix q assume "getPhotoById s pid = Some q"
    from getPhotoById_split [OF this] obtain pre post where
      "photo_file s = pre @ q # post" "\<forall>y\<in>set pre. photo_id y \<noteq> pid" "photo_id q = pid" by blast
    then show "fst (addTagToPhoto s pid t)" by (simp add: addTagToPhoto_first)
  next
    fix q assume a: "getPhotoById s pid = Some q \<and> owner q = u"
    then have "getPhotoById s pid = Some q" by simp
    from getPhotoById_split [OF this] obtain pre post where
      "photo_file s = pre @ q # post" "\<forall>y\<in>set pre. photo_id y \<noteq> pid" "photo_id q = pid" by blast
    with a show "ok (fst (addTag lc s u pid tag))" by (simp add: addTag_owned)
  next
    show "fst (addTag lc s u pid tag) \<noteq> \<lparr>ok = False, error = None, skipped = None\<rparr>"
    proof (cases s pid rule: photo_cases)
      case absent
      then show ?thesis by (simp add: addTag_not_found)
    next
      case (first pre q post)
      then show ?thesis
        by (cases "owner q = u") (simp_all add: addTag_owned addTag_denied)
    qed
  next
    assume n: "\<not> ok (fst (addTag lc s u pid tag))"
    show "error (fst (addTag lc s u pid tag)) \<in> {Some PhotoNotFound, Some AccessDenied}"
    proof (cases s pid rule: photo_cases)
      case absent
      then show ?thesis by (simp add: addTag_not_found)
    next
      case (first pre q post)
      with n show ?thesis
        by (cases "owner q = u") (auto simp: addTag_owned addTag_denied split: if_splits)
    qed
  qed
  then have never: "fst (addTag lc s u pid tag) \<noteq> \<lparr>ok = False, error = None, skipped = None\<rparr>"
    by blast
  have between: "photo_file (env s) = photo_file s \<longrightarrow>
      fst (addTag_between lc env s u pid tag) = fst (addTag lc s u pid tag) \<and>
      fst (addTag_between lc env s u pid tag) \<noteq> \<lparr>ok = False, error = None, skipped = None\<rparr>"
  proof
    assume "photo_file (env s) = photo_file s"
    then have "fst (addTag_between lc env s u pid tag) = fst (addTag lc s u pid tag)"
      by (rule addTag_between_result)
    with never show "fst (addTag_between lc env s u pid tag) = fst (addTag lc s u pid tag) \<and>
      fst (addTag_between lc env s u pid tag) \<noteq> \<lparr>ok = False, error = None, skipped = None\<rparr>"
      by simp
  qed
  from sequential between show ?thesis by blast
qed

theorem addTag_write_finds_photo_witness:
  "fst (addTagToPhoto example_store 7 ''oak'') \<and>
   ok (fst (addTag ascii_toLowerCase example_store 1 7 ''Oak'')) \<and>
   error (fst (addTag ascii_toLowerCase example_store 2 7 ''Oak'')) \<in> {Some PhotoNotFound, Some AccessDenied} \<and>
   fst (addTag_between ascii_toLowerCase (\<lambda>s. s\<lparr>album_file := []\<rparr>) example_store 1 7 ''Oak'') =
     fst (addTag ascii_toLowerCase example_store 1 7 ''Oak'')"
proof -
  have g: "getPhotoById example_store 7 = Some photo7" and o: "owner photo7 = 1"
    by (simp_all add: getPhotoById_def getAllPhotos_def example_store_def photo7_def photo8_def)
  have n: "\<not> ok (fst (addTag ascii_toLowerCase example_store 2 7 ''Oak''))" by code_simp
  have e: "photo_file ((\<lambda>s. s\<lparr>album_file := []\<rparr>) example_store) = photo_file example_store"
    by simp
  note t = addTag_write_finds_photo [of example_store 7 "''oak''" 1 ascii_toLowerCase "''Oak''"
      "\<lambda>s. s\<lparr>album_file := []\<rparr>"]
  from g t have 1: "fst (addTagToPhoto example_store 7 ''oak'')" by blast
  from g o t have 2: "ok (fst (addTag ascii_toLowerCase example_store 1 7 ''Oak''))" by blast
  from n addTag_write_finds_photo [of example_store 7 "''oak''" 2 ascii_toLowerCase "''Oak''"]
  have 3: "error (fst (addTag ascii_toLowerCase example_store 2 7 ''Oak'')) \<in> {Some PhotoNotFound, Some AccessDenied}"
    by blast
  from e t have 4: "fst (addTag_between ascii_toLowerCase (\<lambda>s. s\<lparr>album_file := []\<rparr>) example_store 1 7 ''Oak'') =
     fst (addTag ascii_toLowerCase example_store 1 7 ''Oak'')" by blast
  from 1 2 3 4 show ?thesis by blast
qed

section \<open>Failure atomicity\<close>

text \<open>
  Claim C5. Failure atomicity. When \<open>updatePhotoDetails\<close> or \<open>addTag\<close> returns the
  not-found or the access-denied error, and when \<open>addTag\<close> returns
  \<open>{ok: true, skipped: true}\<close>, the store after the call is the store before it: no
  collection has changed and nothing was written.
\<close>

theorem failure_atomicity:
  "(error (fst (updatePhotoDetails s u pid t d)) \<in> {Some PhotoNotFound, Some AccessDenied} \<longrightarrow>
      snd (updatePhotoDetails s u pid t d) = s) \<and>
   (error (fst (addTag lc s u pid tag)) \<in> {Some PhotoNotFound, Some AccessDenied} \<longrightarrow>
      snd (addTag lc s u pid tag) = s) \<and>
   (fst (addTag lc s u pid tag) = \<lparr>ok = True, error = None, skipped = Some True\<rparr> \<longrightarrow>
      snd (addTag lc s u pid tag) = s)"
proof (intro conjI impI)
  assume "error (fst (updatePhotoDetails s u pid t d)) \<in> {Some PhotoNotFound, Some AccessDenied}"
  then show "snd (updatePhotoDetails s u pid t d) = s"
    by (auto simp: updatePhotoDetails_def split: option.splits if_splits prod.splits)
next
  assume "error (fst (addTag lc s u pid tag)) \<in> {Some PhotoNotFound, Some AccessDenied}"
  then show "snd (addTag lc s u pid tag) = s"
    by (auto simp: addTag_def Let_def split: option.splits if_splits prod.splits)
next
  assume "fst (addTag lc s u pid tag) = \<lparr>ok = True, error = None, skipped = Some True\<rparr>"
  then show "snd (addTag lc s u pid tag) = s"
    by (auto simp: addTag_def Let_def split: option.splits if_splits prod.splits)
qed

theorem failure_atomicity_witness:
  "error (fst (updatePhotoDetails example_store 1 5 ''New'' ''desc'')) = Some PhotoNotFound \<and>
   snd (updatePhotoDetails example_store 1 5 ''New'' ''desc'') = example_store \<and>
   error (fst (addTag ascii_toLowerCase example_store 2 7 ''Tree'')) = Some AccessDenied \<and>
   snd (addTag ascii_toLowerCase example_store 2 7 ''Tree'') = example_store \<and>
   skipped (fst (addTag ascii_toLowerCase example_store 1 7 ''Tree'')) = Some True \<and>
   snd (addTag ascii_toLowerCase example_store 1 7 ''Tree'') = example_store"
proof -
  have 1: "error (fst (updatePhotoDetails example_store 1 5 ''New'' ''desc'')) = Some PhotoNotFound"
    by code_simp
  have 2: "error (fst (addTag ascii_toLowerCase example_store 2 7 ''Tree'')) = Some AccessDenied"
    by code_simp
  have 3: "fst (addTag ascii_toLowerCase example_store 1 7 ''Tree'') = \<lparr>ok = True, error = None, skipped = Some True\<rparr>"
    by code_simp
  from 1 failure_atomicity [of example_store 1 5 "''New''" "''desc''"]
  have a: "snd (updatePhotoDetails example_store 1 5 ''New'' ''desc'') = example_store" by simp
  from 2 failure_atomicity [of example_store 2 7 "''New''" "''desc''" ascii_toLowerCase "''Tree''"]
  have b: "snd (addTag ascii_toLowerCase example_store 2 7 ''Tree'') = example_store" by simp
  from 3 failure_atomicity [of example_store 1 7 "''New''" "''desc''" ascii_toLowerCase "''Tree''"]
  have c: "snd (addTag ascii_toLowerCase example_store 1 7 ''Tree'') = example_store" by simp
  from 3 have d: "skipped (fst (addTag ascii_toLowerCase example_store 1 7 ''Tree'')) = Some True" by simp
  from 1 2 a b c d show ?thesis by blast
qed

section \<open>The tag invariant is preserved\<close>

lemma updatePhotoDetails_tags:
  "map tags (photo_file (snd (updatePhotoDetails s u pid t d))) = map tags (photo_file s)"
proof (cases s pid rule: photo_cases)
  case absent
  then show ?thesis by (simp add: updatePhotoDetails_not_found)
next
  case (first pre q post)
  then show ?thesis
    by (cases "owner q = u") (simp_all add: updatePhotoDetails_owned updatePhotoDetails_denied)
qed

lemma tags_invariant_map:
  "tags_invariant lc s \<longleftrightarrow> (\<forall>ts\<in>set (map tags (photo_file s)). (\<forall>t\<in>set ts. lc t = t) \<and> distinct ts)"
  by (simp add: tags_invariant_def)

lemma tags_invariant_updatePhotoDetails:
  "tags_invariant lc s \<Longrightarrow> tags_invariant lc (snd (updatePhotoDetails s u pid t d))"
  by (simp only: tags_invariant_map updatePhotoDetails_tags)

lemma tags_invariant_addTag:
  assumes idem: "\<forall>t. lc (lc t) = lc t" and "tags_invariant lc s"
  shows "tags_invariant lc (snd (addTag lc s u pid tag))"
proof (cases s pid rule: photo_cases)
  case absent
  with assms show ?thesis by (simp add: addTag_not_found)
next
  case (first pre q post)
  show ?thesis
  proof (cases "owner q = u \<and> lc tag \<notin> set (tags q)")
    case False
    with first assms show ?thesis
      by (cases "owner q = u") (simp_all add: addTag_owned addTag_denied)
  next
    case True
    with first have "snd (addTag lc s u pid tag) =
        s\<lparr>photo_file := pre @ q\<lparr>tags := tags q @ [lc tag]\<rparr> # post,
          writes := Suc (writes s)\<rparr>"
      by (simp add: addTag_owned)
    moreover from assms first(1) True
    have "tags_invariant lc (s\<lparr>photo_file := pre @ q\<lparr>tags := tags q @ [lc tag]\<rparr> # post,
          writes := Suc (writes s)\<rparr>)"
      by (auto simp: tags_invariant_def idem)
    ultimately show ?thesis by simp
  qed
qed

lemma tags_invariant_no_case_duplicates:
  assumes "tags_invariant lc s" "p \<in> set (photo_file s)"
  shows "no_case_duplicates lc (tags p)"
proof -
  from assms have l: "\<forall>t\<in>set (tags p). lc t = t" and d: "distinct (tags p)"
    by (auto simp: tags_invariant_def)
  from l have "map lc (tags p) = tags p" by (induction "tags p") (simp_all add: map_idI)
  with d show ?thesis by (simp add: no_case_duplicates_def)
qed

text \<open>
  Claim C6. The tag invariant is preserved by every call of the business layer. If in
  every photo the stored tags are lowercase and pairwise distinct, then after \<open>addTag\<close>,
  \<open>updatePhotoDetails\<close> or any of the reading calls they still are, and so no photo has
  two tags that are equal under case-insensitive comparison. This holds for every
  lowercase function \<open>lc\<close> that is idempotent: the tag that \<open>addTag\<close> stores is \<open>lc tag\<close>,
  and it is lowercase when lowering it again changes nothing.
\<close>

theorem tags_invariant_preserved:
  "(\<forall>t. lc (lc t) = lc t) \<and> tags_invariant lc s \<longrightarrow>
     tags_invariant lc (store_after lc c s) \<and>
     (\<forall>p\<in>set (photo_file (store_after lc c s)). no_case_duplicates lc (tags p))"
proof
  assume a: "(\<forall>t. lc (lc t) = lc t) \<and> tags_invariant lc s"
  then have idem: "\<forall>t. lc (lc t) = lc t" and inv: "tags_invariant lc s" by simp_all
  have "tags_invariant lc (store_after lc c s)"
  proof (cases c)
    case (UpdatePhotoDetails u p t d)
    with inv show ?thesis by (simp add: tags_invariant_updatePhotoDetails)
  next
    case (AddTag u p tag)
    with inv idem show ?thesis by (simp add: tags_invariant_addTag)
  qed (use inv in simp_all)
  then show "tags_invariant lc (store_after lc c s) \<and>
     (\<forall>p\<in>set (photo_file (store_after lc c s)). no_case_duplicates lc (tags p))"
    by (blast intro: tags_invariant_no_case_duplicates)
qed

theorem tags_invariant_preserved_witness:
  "tags_invariant ascii_toLowerCase example_store \<and>
   tags_invariant ascii_toLowerCase (store_after ascii_toLowerCase (AddTag 1 7 ''Sunset'') example_store) \<and>
   photo_file (store_after ascii_toLowerCase (AddTag 1 7 ''Sunset'') example_store) =
     [photo8, photo7\<lparr>tags := [''tree'', ''sunset'']\<rparr>, photo7_again, photo9] \<and>
   no_case_duplicates ascii_toLowerCase [''tree'', ''sunset'']"
proof -
  have i: "tags_invariant ascii_toLowerCase example_store" by code_simp
  have l: "ascii_toLowerCase ''Sunset'' = ''sunset''" by code_simp
  have "owner photo7 = 1" by (simp add: photo7_def)
  with example_first7
  have "addTag ascii_toLowerCase example_store 1 7 ''Sunset'' =
     (if ascii_toLowerCase ''Sunset'' \<in> set (tags photo7)
      then (\<lparr>ok = True, error = None, skipped = Some True\<rparr>, example_store)
      else (\<lparr>ok = True, error = None, skipped = None\<rparr>,
            example_store\<lparr>photo_file := [photo8] @ photo7\<lparr>tags := tags photo7 @ [ascii_toLowerCase ''Sunset'']\<rparr> #
                [photo7_again, photo9],
              writes := Suc (writes example_store)\<rparr>))"
    by (simp add: addTag_owned)
  then have m: "photo_file (store_after ascii_toLowerCase (AddTag 1 7 ''Sunset'') example_store) =
     [photo8, photo7\<lparr>tags := [''tree'', ''sunset'']\<rparr>, photo7_again, photo9]"
    by (simp add: l photo7_def)
  have d: "\<forall>t. ascii_toLowerCase (ascii_toLowerCase t) = ascii_toLowerCase t"
    by (simp add: ascii_toLowerCase_idem)
  from d i tags_invariant_preserved [of ascii_toLowerCase example_store "AddTag 1 7 ''Sunset''"]
  have t: "tags_invariant ascii_toLowerCase (store_after ascii_toLowerCase (AddTag 1 7 ''Sunset'') example_store)"
    and n: "\<forall>p\<in>set (photo_file (store_after ascii_toLowerCase (AddTag 1 7 ''Sunset'') example_store)).
       no_case_duplicates ascii_toLowerCase (tags p)" by blast+
  from n have "no_case_duplicates ascii_toLowerCase (tags (photo7\<lparr>tags := [''tree'', ''sunset'']\<rparr>))"
    unfolding m by simp
  then have "no_case_duplicates ascii_toLowerCase [''tree'', ''sunset'']" by simp
  with i t m show ?thesis by blast
qed

text \<open>
  The lowercase part of the invariant is needed: \<open>addTag\<close> tests membership of the
  lowercased tag with \<open>includes\<close>, so a stored tag \<open>Tree\<close> does not stop \<open>tree\<close> from
  being appended.
\<close>

lemma no_case_duplicates_not_inductive:
  "no_case_duplicates ascii_toLowerCase [''Tree''] \<and>
   map tags (photo_file (snd (addTag ascii_toLowerCase
      \<lparr>user_file = [], album_file = [],
       photo_file = [\<lparr>photo_id = 7, owner = 1, filename = ''tree.jpg'', title = ''Old'',
          description = '''', date = '''', albums = None, tags = [''Tree'']\<rparr>],
       writes = 0\<rparr> 1 7 ''tree''))) = [[''Tree'', ''tree'']] \<and>
   \<not> no_case_duplicates ascii_toLowerCase [''Tree'', ''tree'']"
  by code_simp

section \<open>Login\<close>

lemma login_first:
  assumes "user_file s = pre @ x # post" "\<forall>y\<in>set pre. username y \<noteq> un" "username x = un"
  shows "login s un pw =
     (if password x = pw then Some \<lparr>user_id = user_id x, username = username x\<rparr> else None)"
proof -
  have "getUserByUsername s un = Some x"
    using assms by (simp add: getUserByUsername_def find_first)
  then show ?thesis by (simp add: login_def)
qed

lemma login_absent:
  "\<forall>y\<in>set (user_file s). username y \<noteq> un \<Longrightarrow> login s un pw = None"
  by (simp add: login_def getUserByUsername_def find_None_all [symmetric])

lemma login_Some:
  assumes "login s un pw = Some v"
  shows "\<exists>pre x post. user_file s = pre @ x # post \<and> (\<forall>y\<in>set pre. username y \<noteq> un) \<and>
     username x = un \<and> password x = pw \<and> v = \<lparr>user_id = user_id x, username = username x\<rparr>"
proof -
  from assms obtain x where g: "getUserByUsername s un = Some x" and p: "password x = pw"
    and v: "v = \<lparr>user_id = user_id x, username = username x\<rparr>"
    by (auto simp: login_def split: option.splits if_splits)
  from g have "find (\<lambda>u. username u = un) (user_file s) = Some x"
    by (simp add: getUserByUsername_def)
  from find_Some_split [OF this] p v show ?thesis by blast
qed

lemma distinct_first:
  assumes "distinct (map f xs)" "x \<in> set xs"
  shows "\<exists>pre post. xs = pre @ x # post \<and> (\<forall>y\<in>set pre. f y \<noteq> f x)"
proof -
  from assms(2) obtain pre post where xs: "xs = pre @ x # post" by (auto simp: in_set_conv_decomp)
  with assms(1) have "f x \<notin> f ` set pre" by simp
  then have "\<forall>y\<in>set pre. f y \<noteq> f x" by (metis imageI)
  with xs show ?thesis by blast
qed

text \<open>
  Claim C4. \<open>login\<close> returns a user only when a stored user has the given username and
  the given password, both compared exactly, and the result is then the view
  \<open>{id, username}\<close> of that user, a record with no password field. With unique
  usernames, as the data model has them, it returns the view of every such user, so it
  returns a user exactly when one exists. When no stored user has the username and the
  password, the result is absent. In general the user record that decides is the first
  one with the username: the result is its view when its password is the given one, and
  absent otherwise.
\<close>

theorem login_exact:
  "(\<forall>v. login s un pw = Some v \<longrightarrow>
      (\<exists>x\<in>set (user_file s). username x = un \<and> password x = pw \<and>
         v = \<lparr>user_id = user_id x, username = username x\<rparr>)) \<and>
   (distinct (map username (user_file s)) \<longrightarrow>
      (\<forall>x\<in>set (user_file s). username x = un \<and> password x = pw \<longrightarrow>
         login s un pw = Some \<lparr>user_id = user_id x, username = username x\<rparr>)) \<and>
   ((\<forall>x\<in>set (user_file s). \<not> (username x = un \<and> password x = pw)) \<longrightarrow> login s un pw = None) \<and>
   (\<forall>pre x post.
      user_file s = pre @ x # post \<and> (\<forall>y\<in>set pre. username y \<noteq> un) \<and> username x = un \<longrightarrow>
      login s un pw =
        (if password x = pw then Some \<lparr>user_id = user_id x, username = username x\<rparr> else None))"
proof (intro conjI allI impI ballI)
  fix v assume "login s un pw = Some v"
  from login_Some [OF this] obtain pre x post where
    "user_file s = pre @ x # post" "username x = un \<and> password x = pw \<and>
       v = \<lparr>user_id = user_id x, username = username x\<rparr>" by blast
  then have "x \<in> set (user_file s)" "username x = un \<and> password x = pw \<and>
       v = \<lparr>user_id = user_id x, username = username x\<rparr>" by simp_all
  then show "\<exists>x\<in>set (user_file s). username x = un \<and> password x = pw \<and>
         v = \<lparr>user_id = user_id x, username = username x\<rparr>" by blast
next
  fix x
  assume d: "distinct (map username (user_file s))" and x: "x \<in> set (user_file s)"
    and m: "username x = un \<and> password x = pw"
  from distinct_first [OF d x] obtain pre post where
    "user_file s = pre @ x # post" "\<forall>y\<in>set pre. username y \<noteq> username x" by blast
  with m show "login s un pw = Some \<lparr>user_id = user_id x, username = username x\<rparr>"
    by (simp add: login_first)
next
  assume n: "\<forall>x\<in>set (user_file s). \<not> (username x = un \<and> password x = pw)"
  show "login s un pw = None"
  proof (cases "login s un pw")
    case (Some v)
    from login_Some [OF this] n show ?thesis by auto
  qed simp
next
  fix pre x post
  assume "user_file s = pre @ x # post \<and> (\<forall>y\<in>set pre. username y \<noteq> un) \<and> username x = un"
  then show "login s un pw =
        (if password x = pw then Some \<lparr>user_id = user_id x, username = username x\<rparr> else None)"
    by (simp add: login_first)
qed

theorem login_exact_witness:
  "login example_store ''alice'' ''pw1'' = Some \<lparr>user_id = 1, username = ''alice''\<rparr> \<and>
   login example_store ''alice'' ''pw2'' = None \<and>
   login example_store ''Alice'' ''pw1'' = None \<and>
   login example_store ''bob'' ''pw2'' = Some \<lparr>user_id = 2, username = ''bob''\<rparr> \<and>
   login example_store ''bob'' ''PW2'' = None"
proof -
  have d: "distinct (map username (user_file example_store))"
    by (simp add: example_defs)
  have a: "alice \<in> set (user_file example_store)" "username alice = ''alice'' \<and> password alice = ''pw1''"
    by (simp_all add: example_defs)
  have n1: "\<forall>x\<in>set (user_file example_store). \<not> (username x = ''alice'' \<and> password x = ''pw2'')"
    by (simp add: example_defs)
  have n2: "\<forall>x\<in>set (user_file example_store). \<not> (username x = ''Alice'' \<and> password x = ''pw1'')"
    by (simp add: example_defs)
  have f: "user_file example_store = [alice] @ bob # [] \<and>
      (\<forall>y\<in>set [alice]. username y \<noteq> ''bob'') \<and> username bob = ''bob''"
    by (simp add: example_defs)
  from d a login_exact [of example_store "''alice''" "''pw1''"]
  have "login example_store ''alice'' ''pw1'' = Some \<lparr>user_id = user_id alice, username = username alice\<rparr>"
    by blast
  then have 1: "login example_store ''alice'' ''pw1'' = Some \<lparr>user_id = 1, username = ''alice''\<rparr>"
    by (simp add: alice_def)
  from n1 login_exact [of example_store "''alice''" "''pw2''"]
  have 2: "login example_store ''alice'' ''pw2'' = None" by blast
  from n2 login_exact [of example_store "''Alice''" "''pw1''"]
  have 3: "login example_store ''Alice'' ''pw1'' = None" by blast
  from f login_exact [of example_store "''bob''" "''pw2''"]
  have "login example_store ''bob'' ''pw2'' =
      (if password bob = ''pw2'' then Some \<lparr>user_id = user_id bob, username = username bob\<rparr> else None)"
    by blast
  then have 4: "login example_store ''bob'' ''pw2'' = Some \<lparr>user_id = 2, username = ''bob''\<rparr>"
    by (simp add: bob_def)
  from f login_exact [of example_store "''bob''" "''PW2''"]
  have "login example_store ''bob'' ''PW2'' =
      (if password bob = ''PW2'' then Some \<lparr>user_id = user_id bob, username = username bob\<rparr> else None)"
    by blast
  then have 5: "login example_store ''bob'' ''PW2'' = None"
    by (simp add: bob_def)
  from 1 2 3 4 5 show ?thesis by blast
qed

text \<open>
  \<open>getUserByUsername\<close> returns the first user with the username. When a username is
  stored twice, only the password of the first record logs in.
\<close>

lemma login_first_match_only:
  "login \<lparr>user_file = [\<lparr>user_id = 1, username = ''alice'', password = ''pw1''\<rparr>,
                        \<lparr>user_id = 3, username = ''alice'', password = ''pw3''\<rparr>],
          album_file = [], photo_file = [], writes = 0\<rparr> ''alice'' ''pw3'' = None"
  by code_simp

section \<open>Photos of an album\<close>

lemma in_album_iff:
  "(if isArray v then array_includes v aid else False) \<longleftrightarrow>
   (\<exists>xs. v = Some (JArr xs) \<and> JNum aid \<in> set xs)"
  by (cases v rule: isArray.cases) simp_all

lemma listPhotosInAlbum_filter:
  "listPhotosInAlbum s aid =
     filter (\<lambda>p. \<exists>xs. albums p = Some (JArr xs) \<and> JNum aid \<in> set xs) (photo_file s)"
  by (simp add: listPhotosInAlbum_def getAllPhotos_def in_album_iff)

text \<open>
  Claim C9. \<open>listPhotosInAlbum\<close> returns exactly the photos whose \<open>albums\<close> field is an
  array that contains the album id, in the order of the collection. A photo whose
  \<open>albums\<close> field is absent or is not an array is left out; the function is total, so
  no such photo raises an error.
\<close>

theorem listPhotosInAlbum_exact:
  "listPhotosInAlbum s aid =
     filter (\<lambda>p. \<exists>xs. albums p = Some (JArr xs) \<and> JNum aid \<in> set xs) (photo_file s) \<and>
   (\<forall>p\<in>set (photo_file s). (\<forall>xs. albums p \<noteq> Some (JArr xs)) \<longrightarrow>
      p \<notin> set (listPhotosInAlbum s aid))"
  by (simp add: listPhotosInAlbum_filter)

theorem listPhotosInAlbum_exact_witness:
  "listPhotosInAlbum example_store 1 = [photo7, photo9] \<and>
   listPhotosInAlbum example_store 2 = [photo9] \<and>
   photo8 \<notin> set (listPhotosInAlbum example_store 1) \<and>
   photo7_again \<notin> set (listPhotosInAlbum example_store 1)"
proof -
  note t = listPhotosInAlbum_exact [of example_store 1]
  from t have "listPhotosInAlbum example_store 1 =
     filter (\<lambda>p. \<exists>xs. albums p = Some (JArr xs) \<and> JNum 1 \<in> set xs) (photo_file example_store)"
    by (rule conjunct1)
  then have 1: "listPhotosInAlbum example_store 1 = [photo7, photo9]"
    by (simp add: example_defs)
  from listPhotosInAlbum_exact [of example_store 2]
  have "listPhotosInAlbum example_store 2 =
     filter (\<lambda>p. \<exists>xs. albums p = Some (JArr xs) \<and> JNum 2 \<in> set xs) (photo_file example_store)"
    by (rule conjunct1)
  then have 2: "listPhotosInAlbum example_store 2 = [photo9]"
    by (simp add: example_defs)
  have m: "photo8 \<in> set (photo_file example_store)" "photo7_again \<in> set (photo_file example_store)"
    by (simp_all add: example_store_def)
  have a: "\<forall>xs. albums photo8 \<noteq> Some (JArr xs)" "\<forall>xs. albums photo7_again \<noteq> Some (JArr xs)"
    by (simp_all add: photo8_def photo7_again_def)
  from t m a have 3: "photo8 \<notin> set (listPhotosInAlbum example_store 1)"
    and 4: "photo7_again \<notin> set (listPhotosInAlbum example_store 1)" by blast+
  from 1 2 3 4 show ?thesis by blast
qed

lemma getAlbumByName_first:
  assumes "album_file s = pre @ a # post"
    and "\<forall>y\<in>set pre. lc (name y) \<noteq> lc nm"
    and "lc (name a) = lc nm"
  shows "getAlbumByName lc s nm = Some a"
  using assms by (simp add: getAlbumByName_def getAllAlbums_def Let_def find_first)

lemma getAlbumByName_None:
  "getAlbumByName lc s nm = None \<longleftrightarrow>
   (\<forall>a\<in>set (album_file s). lc (name a) \<noteq> lc nm)"
  by (simp add: getAlbumByName_def getAllAlbums_def Let_def find_None_all)

text \<open>
  Claim C7. \<open>getUserPhotosInAlbum\<close> returns the not-found error exactly when no album
  name equals the given name under case-insensitive comparison, which is equality of the
  lowercase forms \<open>lc (name a) = lc nm\<close>. Otherwise it resolves the first such album and
  returns it with exactly the photos whose \<open>albums\<close> field is an array containing the id
  of that album and whose owner is the caller, in the order of the collection. This
  holds for every lowercase function \<open>lc\<close>.
\<close>

theorem getUserPhotosInAlbum_exact:
  "(getUserPhotosInAlbum lc s u nm = Inl AlbumNotFound \<longleftrightarrow>
      (\<forall>a\<in>set (album_file s). lc (name a) \<noteq> lc nm)) \<and>
   (\<forall>pre a post.
      album_file s = pre @ a # post \<and>
      (\<forall>y\<in>set pre. lc (name y) \<noteq> lc nm) \<and>
      lc (name a) = lc nm \<longrightarrow>
      getUserPhotosInAlbum lc s u nm =
        Inr \<lparr>album = a,
             photos = filter (\<lambda>p. (\<exists>xs. albums p = Some (JArr xs) \<and> JNum (album_id a) \<in> set xs) \<and>
                                  owner p = u) (photo_file s)\<rparr>)"
proof (intro conjI allI impI)
  show "getUserPhotosInAlbum lc s u nm = Inl AlbumNotFound \<longleftrightarrow>
      (\<forall>a\<in>set (album_file s). lc (name a) \<noteq> lc nm)"
    unfolding getAlbumByName_None [symmetric]
    by (simp add: getUserPhotosInAlbum_def Let_def split: option.splits)
next
  fix pre a post
  assume "album_file s = pre @ a # post \<and>
      (\<forall>y\<in>set pre. lc (name y) \<noteq> lc nm) \<and>
      lc (name a) = lc nm"
  then have "getAlbumByName lc s nm = Some a" by (simp add: getAlbumByName_first)
  then show "getUserPhotosInAlbum lc s u nm =
        Inr \<lparr>album = a,
             photos = filter (\<lambda>p. (\<exists>xs. albums p = Some (JArr xs) \<and> JNum (album_id a) \<in> set xs) \<and>
                                  owner p = u) (photo_file s)\<rparr>"
    by (simp add: getUserPhotosInAlbum_def Let_def listPhotosInAlbum_filter conj_commute)
qed

theorem getUserPhotosInAlbum_exact_witness:
  "getUserPhotosInAlbum ascii_toLowerCase example_store 1 ''NATURE'' = Inr \<lparr>album = nature, photos = [photo7, photo9]\<rparr> \<and>
   getUserPhotosInAlbum ascii_toLowerCase example_store 2 ''nature'' = Inr \<lparr>album = nature, photos = []\<rparr> \<and>
   getUserPhotosInAlbum ascii_toLowerCase example_store 1 ''CITY'' = Inr \<lparr>album = city, photos = [photo9]\<rparr> \<and>
   getUserPhotosInAlbum ascii_toLowerCase example_store 1 ''Sea'' = Inl AlbumNotFound"
proof -
  have l: "ascii_toLowerCase ''Nature'' = ascii_toLowerCase ''NATURE''" "ascii_toLowerCase ''Nature'' = ascii_toLowerCase ''nature''"
    "ascii_toLowerCase ''Nature'' \<noteq> ascii_toLowerCase ''Sea''" "ascii_toLowerCase ''City'' \<noteq> ascii_toLowerCase ''Sea''"
    "ascii_toLowerCase ''Nature'' \<noteq> ascii_toLowerCase ''CITY''" "ascii_toLowerCase ''City'' = ascii_toLowerCase ''CITY''"
    by code_simp+
  have f3: "album_file example_store = [nature] @ city # [] \<and>
      (\<forall>y\<in>set [nature]. ascii_toLowerCase (name y) \<noteq> ascii_toLowerCase ''CITY'') \<and>
      ascii_toLowerCase (name city) = ascii_toLowerCase ''CITY''"
    using l by (simp add: example_store_def nature_def city_def)
  from f3 getUserPhotosInAlbum_exact [of ascii_toLowerCase example_store 1 "''CITY''"]
  have "getUserPhotosInAlbum ascii_toLowerCase example_store 1 ''CITY'' =
        Inr \<lparr>album = city,
             photos = filter (\<lambda>p. (\<exists>xs. albums p = Some (JArr xs) \<and> JNum (album_id city) \<in> set xs) \<and>
                                  owner p = 1) (photo_file example_store)\<rparr>"
    by blast
  then have 4: "getUserPhotosInAlbum ascii_toLowerCase example_store 1 ''CITY'' = Inr \<lparr>album = city, photos = [photo9]\<rparr>"
    by (simp add: example_store_def photo7_def photo8_def photo7_again_def photo9_def city_def)
  have f1: "album_file example_store = [] @ nature # [city] \<and>
      (\<forall>y\<in>set []. ascii_toLowerCase (name y) \<noteq> ascii_toLowerCase ''NATURE'') \<and>
      ascii_toLowerCase (name nature) = ascii_toLowerCase ''NATURE''"
    using l by (simp add: example_store_def nature_def)
  have f2: "album_file example_store = [] @ nature # [city] \<and>
      (\<forall>y\<in>set []. ascii_toLowerCase (name y) \<noteq> ascii_toLowerCase ''nature'') \<and>
      ascii_toLowerCase (name nature) = ascii_toLowerCase ''nature''"
    using l by (simp add: example_store_def nature_def)
  have n: "\<forall>a\<in>set (album_file example_store). ascii_toLowerCase (name a) \<noteq> ascii_toLowerCase ''Sea''"
    using l by (simp add: example_store_def nature_def city_def)
  from f1 getUserPhotosInAlbum_exact [of ascii_toLowerCase example_store 1 "''NATURE''"]
  have "getUserPhotosInAlbum ascii_toLowerCase example_store 1 ''NATURE'' =
        Inr \<lparr>album = nature,
             photos = filter (\<lambda>p. (\<exists>xs. albums p = Some (JArr xs) \<and> JNum (album_id nature) \<in> set xs) \<and>
                                  owner p = 1) (photo_file example_store)\<rparr>"
    by blast
  then have 1: "getUserPhotosInAlbum ascii_toLowerCase example_store 1 ''NATURE'' =
      Inr \<lparr>album = nature, photos = [photo7, photo9]\<rparr>"
    by (simp add: example_store_def photo7_def photo8_def photo7_again_def photo9_def nature_def)
  from f2 getUserPhotosInAlbum_exact [of ascii_toLowerCase example_store 2 "''nature''"]
  have "getUserPhotosInAlbum ascii_toLowerCase example_store 2 ''nature'' =
        Inr \<lparr>album = nature,
             photos = filter (\<lambda>p. (\<exists>xs. albums p = Some (JArr xs) \<and> JNum (album_id nature) \<in> set xs) \<and>
                                  owner p = 2) (photo_file example_store)\<rparr>"
    by blast
  then have 2: "getUserPhotosInAlbum ascii_toLowerCase example_store 2 ''nature'' = Inr \<lparr>album = nature, photos = []\<rparr>"
    by (simp add: example_store_def photo7_def photo8_def photo7_again_def photo9_def nature_def)
  from n getUserPhotosInAlbum_exact [of ascii_toLowerCase example_store 1 "''Sea''"]
  have 3: "getUserPhotosInAlbum ascii_toLowerCase example_store 1 ''Sea'' = Inl AlbumNotFound" by blast
  from 1 2 4 3 show ?thesis by blast
qed

section \<open>Several records with one id\<close>

text \<open>
  Claim C10. When the first record with a photo id is \<open>q\<close>, all photo operations agree
  on it: \<open>getPhotoById\<close> returns \<open>q\<close>, \<open>getOwnedPhoto\<close> checks the owner of \<open>q\<close>,
  and \<open>updatePhotoById\<close> and \<open>addTagToPhoto\<close> change \<open>q\<close> alone. The records before
  and after it, those after it with the same id included, are unchanged.
\<close>

theorem first_match_agreement:
  "photo_file s = pre @ q # post \<and> (\<forall>y\<in>set pre. photo_id y \<noteq> pid) \<and> photo_id q = pid \<longrightarrow>
     getPhotoById s pid = Some q \<and>
     getOwnedPhoto s u pid = (if owner q \<noteq> u then Inl AccessDenied else Inr q) \<and>
     updatePhotoById s pid t d =
       (True, s\<lparr>photo_file := pre @ q\<lparr>title := t, description := d\<rparr> # post,
                writes := Suc (writes s)\<rparr>) \<and>
     addTagToPhoto s pid tag =
       (True, s\<lparr>photo_file := pre @ q\<lparr>tags := tags q @ [tag]\<rparr> # post,
                writes := Suc (writes s)\<rparr>)"
proof
  assume a: "photo_file s = pre @ q # post \<and> (\<forall>y\<in>set pre. photo_id y \<noteq> pid) \<and> photo_id q = pid"
  then have 1: "photo_file s = pre @ q # post" and 2: "\<forall>y\<in>set pre. photo_id y \<noteq> pid"
    and 3: "photo_id q = pid" by simp_all
  have g: "getPhotoById s pid = Some q" using 1 2 3 by (rule getPhotoById_first)
  then have o: "getOwnedPhoto s u pid = (if owner q \<noteq> u then Inl AccessDenied else Inr q)"
    by (simp add: getOwnedPhoto_def)
  from g o updatePhotoById_first [OF 1 2 3, of t d] addTagToPhoto_first [OF 1 2 3, of tag]
  show "getPhotoById s pid = Some q \<and>
     getOwnedPhoto s u pid = (if owner q \<noteq> u then Inl AccessDenied else Inr q) \<and>
     updatePhotoById s pid t d =
       (True, s\<lparr>photo_file := pre @ q\<lparr>title := t, description := d\<rparr> # post,
                writes := Suc (writes s)\<rparr>) \<and>
     addTagToPhoto s pid tag =
       (True, s\<lparr>photo_file := pre @ q\<lparr>tags := tags q @ [tag]\<rparr> # post,
                writes := Suc (writes s)\<rparr>)"
    by blast
qed

theorem first_match_agreement_witness:
  "getPhotoById example_store 7 = Some photo7 \<and>
   getOwnedPhoto example_store 2 7 = Inl AccessDenied \<and>
   photo_file (snd (updatePhotoById example_store 7 ''New'' ''desc'')) =
     [photo8, photo7\<lparr>title := ''New'', description := ''desc''\<rparr>, photo7_again, photo9] \<and>
   photo_file (snd (addTagToPhoto example_store 7 ''oak'')) =
     [photo8, photo7\<lparr>tags := [''tree'', ''oak'']\<rparr>, photo7_again, photo9]"
proof -
  have first: "photo_file example_store = [photo8] @ photo7 # [photo7_again, photo9] \<and>
      (\<forall>y\<in>set [photo8]. photo_id y \<noteq> 7) \<and> photo_id photo7 = 7"
    by (simp add: example_store_def photo7_def photo8_def)
  from first first_match_agreement [of example_store "[photo8]" photo7 "[photo7_again, photo9]" 7 2
      "''New''" "''desc''" "''oak''"]
  have "getPhotoById example_store 7 = Some photo7 \<and>
     getOwnedPhoto example_store 2 7 = (if owner photo7 \<noteq> 2 then Inl AccessDenied else Inr photo7) \<and>
     updatePhotoById example_store 7 ''New'' ''desc'' =
       (True, example_store\<lparr>photo_file := [photo8] @ photo7\<lparr>title := ''New'', description := ''desc''\<rparr> #
                [photo7_again, photo9], writes := Suc (writes example_store)\<rparr>) \<and>
     addTagToPhoto example_store 7 ''oak'' =
       (True, example_store\<lparr>photo_file := [photo8] @ photo7\<lparr>tags := tags photo7 @ [''oak'']\<rparr> #
                [photo7_again, photo9], writes := Suc (writes example_store)\<rparr>)"
    by blast
  then show ?thesis by (simp add: photo7_def)
qed

end
